theory Spec2Isabelle
  imports Main "HOL-Library.Multiset"
begin

section \<open>Data model of the todo package\<close>

text \<open>
  An instant of \<open>time.Time\<close> is modelled by its position on the time line (an integer
  count of nanoseconds); \<open>Before\<close> compares instants. The clock read by \<open>time.Now()\<close>
  is passed to the operations that read it as the argument \<open>now\<close>.
\<close>

type_synonym Time = int

definition Before :: "Time \<Rightarrow> Time \<Rightarrow> bool" where
  "Before t u = (t < u)"

text \<open>\<open>type Priority int\<close> with the three constants numbered by \<open>iota\<close>.\<close>

type_synonym Priority = int

definition PriorityLow :: Priority where
  "PriorityLow = 0"

definition PriorityMedium :: Priority where
  "PriorityMedium = 1"

definition PriorityHigh :: Priority where
  "PriorityHigh = 2"

text \<open>
  \<open>DueDate\<close> is a pointer that is either nil or points to a time nobody writes to again,
  hence an option. \<open>Tags\<close> is a slice of strings; a nil slice and an empty slice are both
  the empty list.
\<close>

record Item =
  Text :: string
  Done :: bool
  Priority :: Priority
  DueDate :: "Time option"
  Tags :: "string list"
  CreatedAt :: Time

definition NewItem :: "Time \<Rightarrow> string \<Rightarrow> Item" where
  "NewItem now text =
     \<lparr>Text = text, Done = False, Priority = PriorityMedium, DueDate = None,
      Tags = [], CreatedAt = now\<rparr>"

record TodoList =
  Items :: "Item list"

definition NewList :: TodoList where
  "NewList = \<lparr>Items = []\<rparr>"

text \<open>The five \<open>errors.New\<close> values of the package, one constructor per message.\<close>

datatype error =
    ErrItemExists
  | ErrIndexOutOfRange
  | ErrEmptyText
  | ErrTagExists
  | ErrTagNotFound

section \<open>Mutating operations\<close>

text \<open>
  Every method has the pointer receiver \<open>l *List\<close>. A method is modelled as a function
  from the receiver's state to the pair of what it returns (\<open>None\<close> for a nil error)
  and the receiver's state when it returns. Indices are Go \<open>int\<close>s, here \<open>int\<close>.
\<close>

text \<open>The duplicate scan of \<open>Add\<close>: \<open>True\<close> when the loop returns the error.\<close>

fun Add_loop :: "Item list \<Rightarrow> Item \<Rightarrow> bool" where
  "Add_loop [] item = False"
| "Add_loop (existing # rest) item =
     (if Text existing = Text item then True else Add_loop rest item)"

definition Add :: "Time \<Rightarrow> string \<Rightarrow> TodoList \<Rightarrow> error option \<times> TodoList" where
  "Add now text l =
     (let item = NewItem now text in
      if Add_loop (Items l) item then (Some ErrItemExists, l)
      else (None, l\<lparr>Items := Items l @ [item]\<rparr>))"

text \<open>
  The loop of \<open>Sort\<close>, with its two accumulators \<open>incomplete\<close> and \<open>completed\<close>
  (both start as nil slices, so every append goes to storage of their own).
\<close>

fun Sort_loop :: "Item list \<Rightarrow> Item list \<Rightarrow> Item list \<Rightarrow> Item list \<times> Item list" where
  "Sort_loop [] incomplete completed = (incomplete, completed)"
| "Sort_loop (item # rest) incomplete completed =
     (if Done item then Sort_loop rest incomplete (completed @ [item])
      else Sort_loop rest (incomplete @ [item]) completed)"

definition Sort :: "TodoList \<Rightarrow> TodoList" where
  "Sort l =
     (case Sort_loop (Items l) [] [] of
        (incomplete, completed) \<Rightarrow> l\<lparr>Items := incomplete @ completed\<rparr>)"

definition Complete :: "int \<Rightarrow> TodoList \<Rightarrow> error option \<times> TodoList" where
  "Complete index l =
     (if index < 0 \<or> index \<ge> int (length (Items l)) then (Some ErrIndexOutOfRange, l)
      else (None,
        Sort (l\<lparr>Items := (Items l)[nat index := (Items l ! nat index)\<lparr>Done := True\<rparr>]\<rparr>)))"

definition Delete :: "int \<Rightarrow> TodoList \<Rightarrow> error option \<times> TodoList" where
  "Delete index l =
     (if index < 0 \<or> index \<ge> int (length (Items l)) then (Some ErrIndexOutOfRange, l)
      else (None, l\<lparr>Items := take (nat index) (Items l) @ drop (nat index + 1) (Items l)\<rparr>))"

definition Edit :: "int \<Rightarrow> string \<Rightarrow> TodoList \<Rightarrow> error option \<times> TodoList" where
  "Edit index newText l =
     (if index < 0 \<or> index \<ge> int (length (Items l)) then (Some ErrIndexOutOfRange, l)
      else if newText = [] then (Some ErrEmptyText, l)
      else (None, l\<lparr>Items := (Items l)[nat index := (Items l ! nat index)\<lparr>Text := newText\<rparr>]\<rparr>))"

definition Uncomplete :: "int \<Rightarrow> TodoList \<Rightarrow> error option \<times> TodoList" where
  "Uncomplete index l =
     (if index < 0 \<or> index \<ge> int (length (Items l)) then (Some ErrIndexOutOfRange, l)
      else (None,
        Sort (l\<lparr>Items := (Items l)[nat index := (Items l ! nat index)\<lparr>Done := False\<rparr>]\<rparr>)))"

text \<open>The loop of \<open>ClearCompleted\<close>, with the slice \<open>incomplete\<close> and the counter.\<close>

fun ClearCompleted_loop :: "Item list \<Rightarrow> Item list \<Rightarrow> int \<Rightarrow> Item list \<times> int" where
  "ClearCompleted_loop [] incomplete cnt = (incomplete, cnt)"
| "ClearCompleted_loop (item # rest) incomplete cnt =
     (if \<not> Done item then ClearCompleted_loop rest (incomplete @ [item]) cnt
      else ClearCompleted_loop rest incomplete (cnt + 1))"

definition ClearCompleted :: "TodoList \<Rightarrow> int \<times> TodoList" where
  "ClearCompleted l =
     (case ClearCompleted_loop (Items l) [] 0 of
        (incomplete, cnt) \<Rightarrow> (cnt, l\<lparr>Items := incomplete\<rparr>))"

definition SetPriority :: "int \<Rightarrow> Priority \<Rightarrow> TodoList \<Rightarrow> error option \<times> TodoList" where
  "SetPriority index priority l =
     (if index < 0 \<or> index \<ge> int (length (Items l)) then (Some ErrIndexOutOfRange, l)
      else (None,
        l\<lparr>Items := (Items l)[nat index := (Items l ! nat index)\<lparr>Priority := priority\<rparr>]\<rparr>))"

definition SetDueDate :: "int \<Rightarrow> Time \<Rightarrow> TodoList \<Rightarrow> error option \<times> TodoList" where
  "SetDueDate index dueDate l =
     (if index < 0 \<or> index \<ge> int (length (Items l)) then (Some ErrIndexOutOfRange, l)
      else (None,
        l\<lparr>Items := (Items l)[nat index := (Items l ! nat index)\<lparr>DueDate := Some dueDate\<rparr>]\<rparr>))"

text \<open>The scan of \<open>AddTag\<close>: \<open>True\<close> when the loop returns the error.\<close>

fun AddTag_loop :: "string list \<Rightarrow> string \<Rightarrow> bool" where
  "AddTag_loop [] tag = False"
| "AddTag_loop (t # rest) tag = (if t = tag then True else AddTag_loop rest tag)"

definition AddTag :: "int \<Rightarrow> string \<Rightarrow> TodoList \<Rightarrow> error option \<times> TodoList" where
  "AddTag index tag l =
     (if index < 0 \<or> index \<ge> int (length (Items l)) then (Some ErrIndexOutOfRange, l)
      else if AddTag_loop (Tags (Items l ! nat index)) tag then (Some ErrTagExists, l)
      else (None,
        l\<lparr>Items := (Items l)[nat index :=
             (Items l ! nat index)\<lparr>Tags := Tags (Items l ! nat index) @ [tag]\<rparr>]\<rparr>))"

text \<open>
  The scan of \<open>RemoveTag\<close> from position \<open>i\<close> on: the position of the first tag equal to
  \<open>tag\<close>, or \<open>None\<close> when the loop ends without a match.
\<close>

fun RemoveTag_loop :: "string list \<Rightarrow> string \<Rightarrow> nat \<Rightarrow> nat option" where
  "RemoveTag_loop [] tag i = None"
| "RemoveTag_loop (t # rest) tag i =
     (if t = tag then Some i else RemoveTag_loop rest tag (Suc i))"

definition RemoveTag :: "int \<Rightarrow> string \<Rightarrow> TodoList \<Rightarrow> error option \<times> TodoList" where
  "RemoveTag index tag l =
     (if index < 0 \<or> index \<ge> int (length (Items l)) then (Some ErrIndexOutOfRange, l)
      else
        (let tags = Tags (Items l ! nat index) in
         case RemoveTag_loop tags tag 0 of
           Some i \<Rightarrow>
             (None,
              l\<lparr>Items := (Items l)[nat index :=
                   (Items l ! nat index)\<lparr>Tags := take i tags @ drop (i + 1) tags\<rparr>]\<rparr>)
         | None \<Rightarrow> (Some ErrTagNotFound, l)))"

section \<open>Queries\<close>

subsection \<open>The library functions that \<open>Search\<close> calls\<close>

text \<open>
  A Go string is a sequence of bytes; \<open>strings.ToLower\<close> reads it as UTF-8. Code points
  (runes) are natural numbers here. \<open>utf8.RuneError\<close> is U+FFFD and \<open>utf8.MaxRune\<close> is
  U+10FFFF; \<open>utf8.ValidRune\<close> holds of the code points up to \<open>MaxRune\<close> outside the
  surrogate range.
\<close>

definition RuneError :: nat where
  "RuneError = 0xFFFD"

definition MaxRune :: nat where
  "MaxRune = 0x10FFFF"

definition ValidRune :: "nat \<Rightarrow> bool" where
  "ValidRune r = (r \<le> MaxRune \<and> \<not> (0xD800 \<le> r \<and> r \<le> 0xDFFF))"

text \<open>
  \<open>utf8.DecodeRuneInString\<close>: the first code point of \<open>s\<close> and the number of bytes it
  takes. The size of the encoding and the range accepted for the second byte depend on
  the first byte; a byte that starts no valid encoding is read as \<open>RuneError\<close> of width 1.
  The masks \<open>s0 & 0x1F\<close>, \<open>s0 & 0x0F\<close>, \<open>s0 & 0x07\<close> and \<open>s & 0x3F\<close> are written as
  \<open>mod\<close>, the shifts as multiplications.
\<close>

definition DecodeRuneInString :: "string \<Rightarrow> nat \<times> nat" where
  "DecodeRuneInString s =
     (let n = length s in
      if n < 1 then (RuneError, 0)
      else
        let s0 = (of_char (s ! 0) :: nat) in
        if s0 < 0x80 then (s0, 1)
        else if s0 < 0xC2 \<or> 0xF4 < s0 then (RuneError, 1)
        else
          let sz = (if s0 < 0xE0 then 2 else if s0 < 0xF0 then 3 else 4 :: nat);
              lo = (if s0 = 0xE0 then 0xA0 else if s0 = 0xF0 then 0x90 else 0x80 :: nat);
              hi = (if s0 = 0xED then 0x9F else if s0 = 0xF4 then 0x8F else 0xBF :: nat)
          in
          if n < sz then (RuneError, 1)
          else
            let s1 = (of_char (s ! 1) :: nat) in
            if s1 < lo \<or> hi < s1 then (RuneError, 1)
            else if sz \<le> 2 then ((s0 mod 32) * 64 + s1 mod 64, 2)
            else
              let s2 = (of_char (s ! 2) :: nat) in
              if s2 < 0x80 \<or> 0xBF < s2 then (RuneError, 1)
              else if sz \<le> 3 then ((s0 mod 16) * 4096 + (s1 mod 64) * 64 + s2 mod 64, 3)
              else
                let s3 = (of_char (s ! 3) :: nat) in
                if s3 < 0x80 \<or> 0xBF < s3 then (RuneError, 1)
                else ((s0 mod 8) * 262144 + (s1 mod 64) * 4096 + (s2 mod 64) * 64
                      + s3 mod 64, 4))"

text \<open>
  The code points that \<open>for _, c := range s\<close> yields: one per valid encoding, and
  \<open>RuneError\<close> for every byte that is part of none.
\<close>

function decodeRunes :: "string \<Rightarrow> nat list" where
  "decodeRunes s =
     (if s = [] then []
      else fst (DecodeRuneInString s) # decodeRunes (drop (snd (DecodeRuneInString s)) s))"
  by pat_completeness auto
termination
proof (relation "measure length")
  show "wf (measure length)"
    by simp
next
  fix s :: string
  assume "s \<noteq> []"
  then have "1 \<le> snd (DecodeRuneInString s)"
    by (cases s) (simp_all add: DecodeRuneInString_def Let_def)
  with \<open>s \<noteq> []\<close> show "(drop (snd (DecodeRuneInString s)) s, s) \<in> measure length"
    by simp
qed

declare decodeRunes.simps [simp del]

text \<open>
  \<open>utf8.AppendRune\<close>, which \<open>Builder.WriteRune\<close> calls: the UTF-8 encoding of \<open>r\<close>, and
  that of \<open>RuneError\<close> for a surrogate or a value beyond \<open>MaxRune\<close>.
\<close>

definition AppendRune :: "nat \<Rightarrow> string" where
  "AppendRune r =
     (if r \<le> 0x7F then [char_of r]
      else if r \<le> 0x7FF then [char_of (0xC0 + r div 64), char_of (0x80 + r mod 64)]
      else if MaxRune < r \<or> (0xD800 \<le> r \<and> r \<le> 0xDFFF)
        then [char_of (0xEF :: nat), char_of (0xBF :: nat), char_of (0xBD :: nat)]
      else if r \<le> 0xFFFF
        then [char_of (0xE0 + r div 4096), char_of (0x80 + (r div 64) mod 64),
              char_of (0x80 + r mod 64)]
      else [char_of (0xF0 + r div 262144), char_of (0x80 + (r div 4096) mod 64),
            char_of (0x80 + (r div 64) mod 64), char_of (0x80 + r mod 64)])"

text \<open>
  \<open>unicode.ToLower\<close>: the letters \<open>A\<close> to \<open>Z\<close> are moved to \<open>a\<close> to \<open>z\<close>, every other
  ASCII code point is kept, and a code point beyond ASCII is looked up in the case
  tables of the \<open>unicode\<close> package. Those tables are data of the Go distribution; they are
  the parameter \<open>caseTable\<close>, the function \<open>To(LowerCase, r)\<close> they define.
\<close>

definition unicode_ToLower :: "(nat \<Rightarrow> nat) \<Rightarrow> nat \<Rightarrow> nat" where
  "unicode_ToLower caseTable r =
     (if r \<le> 0x7F then (if 0x41 \<le> r \<and> r \<le> 0x5A then r + 0x20 else r)
      else caseTable r)"

text \<open>
  \<open>strings.Map\<close> with a mapping that returns no negative value: every code point read
  from \<open>s\<close> is mapped and written. (The library copies the bytes of a leading run of
  code points that the mapping keeps instead of writing them again, which gives the same
  bytes, as \<open>strings_Map_copy\<close> shows; a byte read as \<open>RuneError\<close> is never copied
  but written as U+FFFD.)
\<close>

definition strings_Map :: "(nat \<Rightarrow> nat) \<Rightarrow> string \<Rightarrow> string" where
  "strings_Map mapping s = concat (map (\<lambda>c. AppendRune (mapping c)) (decodeRunes s))"

text \<open>
  \<open>strings.ToLower\<close>: a string of ASCII bytes is returned as it is when it has no
  upper-case letter, and otherwise lower-cased byte by byte; any other string goes
  through \<open>strings.Map\<close> with \<open>unicode.ToLower\<close>.
\<close>

definition toLowerByte :: "char \<Rightarrow> char" where
  "toLowerByte c =
     (let n = (of_char c :: nat) in if 0x41 \<le> n \<and> n \<le> 0x5A then char_of (n + 0x20) else c)"

definition ToLower :: "(nat \<Rightarrow> nat) \<Rightarrow> string \<Rightarrow> string" where
  "ToLower caseTable s =
     (let isASCII = list_all (\<lambda>c. (of_char c :: nat) < 0x80) s;
          hasUpper = list_ex (\<lambda>c. 0x41 \<le> (of_char c :: nat) \<and> (of_char c :: nat) \<le> 0x5A) s
      in if isASCII then (if \<not> hasUpper then s else map toLowerByte s)
         else strings_Map (unicode_ToLower caseTable) s)"

text \<open>\<open>strings.HasPrefix\<close> and \<open>strings.Contains\<close>: \<open>substr\<close> occurs in \<open>s\<close>.\<close>

fun HasPrefix :: "string \<Rightarrow> string \<Rightarrow> bool" where
  "HasPrefix s [] = True"
| "HasPrefix [] (p # ps) = False"
| "HasPrefix (c # s) (p # ps) = (c = p \<and> HasPrefix s ps)"

fun Contains :: "string \<Rightarrow> string \<Rightarrow> bool" where
  "Contains [] substr = (substr = [])"
| "Contains (c # s) substr = (HasPrefix (c # s) substr \<or> Contains s substr)"

subsection \<open>Search and GetOverdue\<close>

text \<open>
  The inner loop of \<open>Search\<close> over the tags of one item: \<open>True\<close> when it appends the
  item and breaks.
\<close>

fun Search_tags :: "(nat \<Rightarrow> nat) \<Rightarrow> string list \<Rightarrow> string \<Rightarrow> bool" where
  "Search_tags caseTable [] query = False"
| "Search_tags caseTable (tag # rest) query =
     (if Contains (ToLower caseTable tag) query then True
      else Search_tags caseTable rest query)"

text \<open>The outer loop of \<open>Search\<close>, with the slice \<open>results\<close>.\<close>

fun Search_loop :: "(nat \<Rightarrow> nat) \<Rightarrow> Item list \<Rightarrow> string \<Rightarrow> Item list \<Rightarrow> Item list" where
  "Search_loop caseTable [] query results = results"
| "Search_loop caseTable (item # rest) query results =
     (if Contains (ToLower caseTable (Text item)) query
        then Search_loop caseTable rest query (results @ [item])
      else if Search_tags caseTable (Tags item) query
        then Search_loop caseTable rest query (results @ [item])
      else Search_loop caseTable rest query results)"

definition Search :: "(nat \<Rightarrow> nat) \<Rightarrow> string \<Rightarrow> TodoList \<Rightarrow> Item list \<times> TodoList" where
  "Search caseTable query l =
     (let query = ToLower caseTable query in (Search_loop caseTable (Items l) query [], l))"

text \<open>The loop of \<open>GetOverdue\<close>; \<open>now\<close> is what \<open>time.Now()\<close> returned.\<close>

fun GetOverdue_loop :: "Item list \<Rightarrow> Time \<Rightarrow> Item list \<Rightarrow> Item list" where
  "GetOverdue_loop [] now results = results"
| "GetOverdue_loop (item # rest) now results =
     (if (case DueDate item of None \<Rightarrow> False | Some d \<Rightarrow> Before d now \<and> \<not> Done item)
      then GetOverdue_loop rest now (results @ [item])
      else GetOverdue_loop rest now results)"

definition GetOverdue :: "Time \<Rightarrow> TodoList \<Rightarrow> Item list \<times> TodoList" where
  "GetOverdue now l = (GetOverdue_loop (Items l) now [], l)"

section \<open>Lists built through the public operations\<close>

text \<open>
  The lists a caller can hold: \<open>NewList()\<close>, and the receiver after any call of a
  mutating method, whether the call returned an error or not.
\<close>

inductive reachable :: "TodoList \<Rightarrow> bool" where
  reach_NewList: "reachable NewList"
| reach_Add: "reachable l \<Longrightarrow> reachable (snd (Add now text l))"
| reach_Complete: "reachable l \<Longrightarrow> reachable (snd (Complete index l))"
| reach_Uncomplete: "reachable l \<Longrightarrow> reachable (snd (Uncomplete index l))"
| reach_Delete: "reachable l \<Longrightarrow> reachable (snd (Delete index l))"
| reach_Edit: "reachable l \<Longrightarrow> reachable (snd (Edit index newText l))"
| reach_SetPriority: "reachable l \<Longrightarrow> reachable (snd (SetPriority index priority l))"
| reach_SetDueDate: "reachable l \<Longrightarrow> reachable (snd (SetDueDate index dueDate l))"
| reach_AddTag: "reachable l \<Longrightarrow> reachable (snd (AddTag index tag l))"
| reach_RemoveTag: "reachable l \<Longrightarrow> reachable (snd (RemoveTag index tag l))"
| reach_ClearCompleted: "reachable l \<Longrightarrow> reachable (snd (ClearCompleted l))"
| reach_Sort: "reachable l \<Longrightarrow> reachable (Sort l)"

section \<open>Notions of the specification\<close>

text \<open>
  No completed item precedes an incomplete one: whenever a position holds a completed
  item, so does every later position.
\<close>

definition completed_last :: "Item list \<Rightarrow> bool" where
  "completed_last xs =
     (\<forall>j < length xs. \<forall>i < j. Done (xs ! i) \<longrightarrow> Done (xs ! j))"

text \<open>The two groups of a list, each in list order.\<close>

definition incomplete_items :: "Item list \<Rightarrow> Item list" where
  "incomplete_items xs = filter (\<lambda>x. \<not> Done x) xs"

definition completed_items :: "Item list \<Rightarrow> Item list" where
  "completed_items xs = filter Done xs"


text \<open>Two code points agree up to case: \<open>unicode.ToLower\<close> maps them to the same one.\<close>

definition lower_eq :: "(nat \<Rightarrow> nat) \<Rightarrow> nat \<Rightarrow> nat \<Rightarrow> bool" where
  "lower_eq caseTable a b = (unicode_ToLower caseTable a = unicode_ToLower caseTable b)"

text \<open>
  \<open>q\<close> is a case-insensitive substring of \<open>s\<close>, both read as code points with every
  byte outside a valid encoding read as U+FFFD: at some position of \<open>s\<close> there are as
  many code points as \<open>q\<close> has, and they agree with those of \<open>q\<close> one by one, up to case.
\<close>

definition ci_substring :: "(nat \<Rightarrow> nat) \<Rightarrow> string \<Rightarrow> string \<Rightarrow> bool" where
  "ci_substring caseTable q s =
     (\<exists>i \<in> {0..length (decodeRunes s)}.
        list_all2 (lower_eq caseTable)
          (take (length (decodeRunes q)) (drop i (decodeRunes s))) (decodeRunes q))"


text \<open>
  The same relation on bytes, for strings of ASCII bytes: two bytes are the same up to
  case when they are equal, or one is an upper-case letter \<open>A\<close> to \<open>Z\<close> and the other
  is its lower-case letter, 32 positions later.
\<close>

definition isUpper :: "char \<Rightarrow> bool" where
  "isUpper c = (65 \<le> (of_char c :: nat) \<and> (of_char c :: nat) \<le> 90)"

definition eq_fold :: "char \<Rightarrow> char \<Rightarrow> bool" where
  "eq_fold c d =
     (c = d
      \<or> (isUpper c \<and> (of_char d :: nat) = of_char c + 32)
      \<or> (isUpper d \<and> (of_char c :: nat) = of_char d + 32))"

definition ci_substring_bytes :: "string \<Rightarrow> string \<Rightarrow> bool" where
  "ci_substring_bytes q s =
     (\<exists>i \<in> {0..length s}. list_all2 eq_fold (take (length q) (drop i s)) q)"

text \<open>
  For the proofs: the bytes written for a list of code points, and the continuation
  bytes \<open>0x80\<close> to \<open>0xBF\<close> of UTF-8.
\<close>

definition encodeRunes :: "nat list \<Rightarrow> string" where
  "encodeRunes rs = concat (map AppendRune rs)"


text \<open>An item is overdue at \<open>now\<close>: it has a due date strictly before \<open>now\<close> and is not done.\<close>

definition overdue :: "Time \<Rightarrow> Item \<Rightarrow> bool" where
  "overdue now item = (\<exists>d. DueDate item = Some d \<and> d < now \<and> \<not> Done item)"

section \<open>The scenarios of the specification\<close>

definition three_tasks :: TodoList where
  "three_tasks =
     snd (Add 3 ''Task 3'' (snd (Add 2 ''Task 2'' (snd (Add 1 ''Task 1'' NewList)))))"

definition search_tasks :: TodoList where
  "search_tasks =
     snd (Add 3 ''Write documentation''
       (snd (Add 2 ''Learn Go programming'' (snd (Add 1 ''Buy groceries'' NewList)))))"

definition mixed_tasks :: TodoList where
  "mixed_tasks = snd (Add 4 ''Task 4'' (snd (Complete 1 (snd (Complete 0 three_tasks)))))"


text \<open>
  Four tasks: A due at 50, B due at 50 and completed, C due at 200, D with no due date.
\<close>

definition due_tasks :: TodoList where
  "due_tasks =
     snd (Complete 1 (snd (SetDueDate 2 200 (snd (SetDueDate 1 50 (snd (SetDueDate 0 50
       (snd (Add 4 ''D'' (snd (Add 3 ''C'' (snd (Add 2 ''B''
         (snd (Add 1 ''A'' NewList)))))))))))))))"

text \<open>
  For the examples: the entries of the case table for the capital letters of Latin-1
  (U+00C0 to U+00DE without the multiplication sign), 32 below their small letters;
  every other code point is kept.
\<close>

definition latin1Table :: "nat \<Rightarrow> nat" where
  "latin1Table r = (if 0xC0 \<le> r \<and> r \<le> 0xDE \<and> r \<noteq> 0xD7 then r + 0x20 else r)"



text \<open>
  One task whose text is \<open>caf\<close> followed by the byte \<open>FF\<close>, which is part of no UTF-8
  encoding; and one task whose text is the small e acute alone.
\<close>

definition broken_tasks :: TodoList where
  "broken_tasks = snd (Add 1 (''caf'' @ [CHR 0xFF]) NewList)"

definition accent_tasks :: TodoList where
  "accent_tasks = snd (Add 1 [CHR 0xC3, CHR 0xA9] NewList)"

section \<open>Sort\<close>

lemma Sort_loop_filter:
  "Sort_loop xs incomplete completed =
     (incomplete @ filter (\<lambda>x. \<not> Done x) xs, completed @ filter Done xs)"
  by (induction xs arbitrary: incomplete completed) simp_all

lemma Items_Sort:
  "Items (Sort l) = filter (\<lambda>x. \<not> Done x) (Items l) @ filter Done (Items l)"
  by (simp add: Sort_def Sort_loop_filter)

lemma partitioned_nth:
  assumes "i < j" and "j < length (filter (\<lambda>x. \<not> P x) xs @ filter P xs)"
    and "P ((filter (\<lambda>x. \<not> P x) xs @ filter P xs) ! i)"
  shows "P ((filter (\<lambda>x. \<not> P x) xs @ filter P xs) ! j)"
proof -
  let ?a = "filter (\<lambda>x. \<not> P x) xs" and ?b = "filter P xs"
  have "\<not> i < length ?a"
  proof
    assume lt: "i < length ?a"
    then have "?a ! i \<in> set ?a"
      by (rule nth_mem)
    then have "\<not> P (?a ! i)"
      by simp
    with assms(3) lt show False
      by (simp add: nth_append)
  qed
  with assms(1) have ge: "\<not> j < length ?a"
    by simp
  with assms(2) have "j - length ?a < length ?b"
    by simp
  then have "?b ! (j - length ?a) \<in> set ?b"
    by (rule nth_mem)
  then have "P (?b ! (j - length ?a))"
    by simp
  with ge show ?thesis
    by (simp add: nth_append)
qed

lemma mset_partition_by:
  "mset (filter (\<lambda>x. \<not> P x) xs @ filter P xs) = mset xs"
  by (induction xs) simp_all

lemma completed_last_partition:
  "completed_last (filter (\<lambda>x. \<not> Done x) xs @ filter Done xs)"
  unfolding completed_last_def
  using partitioned_nth [where P = Done and xs = xs] by blast

lemma Items_three_tasks:
  "Items three_tasks = [NewItem 1 ''Task 1'', NewItem 2 ''Task 2'', NewItem 3 ''Task 3'']"
  by (simp add: three_tasks_def Add_def NewItem_def NewList_def)

lemma Items_mixed_tasks:
  "Items mixed_tasks =
     [NewItem 2 ''Task 2'', (NewItem 3 ''Task 3'')\<lparr>Done := True\<rparr>,
      (NewItem 1 ''Task 1'')\<lparr>Done := True\<rparr>, NewItem 4 ''Task 4'']"
  by (simp add: mixed_tasks_def Items_three_tasks Complete_def Sort_def Add_def NewItem_def)

text \<open>
  Claim C7. \<open>Sort\<close> returns no error (it has none to return) and is an idempotent stable
  partition: afterwards no completed item precedes an incomplete one, the incomplete items
  and the completed items are each in the order they had before, the list is the
  incomplete items followed by the completed ones, the multiset of items is the same, and
  sorting a second time changes nothing.
\<close>

theorem Sort_stable_partition:
  "completed_last (Items (Sort l))
   \<and> incomplete_items (Items (Sort l)) = incomplete_items (Items l)
   \<and> completed_items (Items (Sort l)) = completed_items (Items l)
   \<and> Items (Sort l) = incomplete_items (Items l) @ completed_items (Items l)
   \<and> mset (Items (Sort l)) = mset (Items l)
   \<and> Sort (Sort l) = Sort l"
proof -
  have items: "Items (Sort l) = incomplete_items (Items l) @ completed_items (Items l)"
    by (simp add: Items_Sort incomplete_items_def completed_items_def)
  have cl: "completed_last (Items (Sort l))"
    by (simp add: Items_Sort completed_last_partition)
  have inc: "incomplete_items (Items (Sort l)) = incomplete_items (Items l)"
    by (simp add: Items_Sort incomplete_items_def)
  have com: "completed_items (Items (Sort l)) = completed_items (Items l)"
    by (simp add: Items_Sort completed_items_def)
  have ms: "mset (Items (Sort l)) = mset (Items l)"
    by (simp only: Items_Sort mset_partition_by)
  have "Items (Sort (Sort l)) = Items (Sort l)"
    using inc com
    by (simp add: Items_Sort [of "Sort l"] Items_Sort [of l] incomplete_items_def
        completed_items_def)
  then have idem: "Sort (Sort l) = Sort l"
    by (simp add: Sort_def Sort_loop_filter)
  from cl inc com items ms idem show ?thesis
    by blast
qed

text \<open>
  On the list Task 2, Task 3 (done), Task 1 (done), Task 4: the order becomes Task 2,
  Task 4, Task 3, Task 1, and positions 2 and 3 both hold completed items.
\<close>

theorem Sort_stable_partition_witness:
  "(2::nat) < 3 \<and> 3 < length (Items (Sort mixed_tasks))
   \<and> Done (Items (Sort mixed_tasks) ! 2) \<and> Done (Items (Sort mixed_tasks) ! 3)
   \<and> map Text (Items (Sort mixed_tasks)) = [''Task 2'', ''Task 4'', ''Task 3'', ''Task 1'']
   \<and> Sort (Sort mixed_tasks) = Sort mixed_tasks"
proof -
  have items: "map Text (Items (Sort mixed_tasks)) = [''Task 2'', ''Task 4'', ''Task 3'', ''Task 1'']"
    and d2: "Done (Items (Sort mixed_tasks) ! 2)"
    by (simp_all add: Items_Sort Items_mixed_tasks NewItem_def)
  from items have "length (map Text (Items (Sort mixed_tasks))) = 4"
    by simp
  then have len: "3 < length (Items (Sort mixed_tasks))"
    by simp
  from Sort_stable_partition [of mixed_tasks]
  have cl: "completed_last (Items (Sort mixed_tasks))"
    and idem: "Sort (Sort mixed_tasks) = Sort mixed_tasks"
    by blast+
  have "(2::nat) < 3"
    by simp
  with cl len have "Done (Items (Sort mixed_tasks) ! 2) \<longrightarrow> Done (Items (Sort mixed_tasks) ! 3)"
    unfolding completed_last_def by blast
  with d2 have d3: "Done (Items (Sort mixed_tasks) ! 3)"
    by simp
  from items d2 d3 len idem show ?thesis
    by simp
qed

section \<open>Complete\<close>

lemma Complete_Items:
  assumes "0 \<le> index" and "index < int (length (Items l))"
  shows "Complete index l =
    (None, l\<lparr>Items :=
       incomplete_items (take (nat index) (Items l))
       @ incomplete_items (drop (nat index + 1) (Items l))
       @ completed_items (take (nat index) (Items l))
       @ [(Items l ! nat index)\<lparr>Done := True\<rparr>]
       @ completed_items (drop (nat index + 1) (Items l))\<rparr>)"
proof -
  let ?xs = "Items l" and ?i = "nat index"
  let ?y = "(?xs ! ?i)\<lparr>Done := True\<rparr>"
  from assms have lt: "?i < length ?xs"
    by simp
  then have upd: "?xs[?i := ?y] = take ?i ?xs @ ?y # drop (?i + 1) ?xs"
    by (simp add: upd_conv_take_nth_drop)
  have "Sort (l\<lparr>Items := ?xs[?i := ?y]\<rparr>) =
      l\<lparr>Items := filter (\<lambda>x. \<not> Done x) (?xs[?i := ?y]) @ filter Done (?xs[?i := ?y])\<rparr>"
    by (simp add: Sort_def Sort_loop_filter)
  also have "\<dots> = l\<lparr>Items :=
       incomplete_items (take ?i ?xs) @ incomplete_items (drop (?i + 1) ?xs)
       @ completed_items (take ?i ?xs) @ [?y] @ completed_items (drop (?i + 1) ?xs)\<rparr>"
    by (simp only: upd) (simp add: incomplete_items_def completed_items_def)
  finally show ?thesis
    using assms by (simp add: Complete_def)
qed

text \<open>
  Claim C1, as the specification words it, asks that after \<open>Complete(i)\<close> the item at
  index \<open>i\<close> is done. In the scenario of the specification itself (Task 1, Task 2, Task 3,
  complete index 0) the call succeeds, the order becomes Task 2, Task 3, Task 1, and the
  item at index 0 is Task 2, which is not done.
\<close>

theorem Complete_index_counterexample:
  "fst (Complete 0 three_tasks) = None
   \<and> Done (Items (snd (Complete 0 three_tasks)) ! 0) = False
   \<and> map Text (Items (snd (Complete 0 three_tasks))) = [''Task 2'', ''Task 3'', ''Task 1'']"
  by (simp add: Items_three_tasks NewItem_def Complete_def Sort_def)

text \<open>
  Claim C1, amended. For every valid index \<open>i\<close>, \<open>Complete(i)\<close> succeeds; the item that
  was at index \<open>i\<close> before the call is in the list with \<open>done = true\<close> and its other fields
  as they were, at the position after all incomplete items and after the completed items
  that preceded it; no completed item precedes an incomplete one; the incomplete items
  are the other incomplete items of before in their order, and the completed items are
  those of before in their order with the newly completed item at its place among them.
\<close>

theorem Complete_valid_index:
  assumes "0 \<le> index" and "index < int (length (Items l))"
  shows "fst (Complete index l) = None
    \<and> completed_last (Items (snd (Complete index l)))
    \<and> incomplete_items (Items (snd (Complete index l))) =
        incomplete_items (take (nat index) (Items l))
        @ incomplete_items (drop (nat index + 1) (Items l))
    \<and> completed_items (Items (snd (Complete index l))) =
        completed_items (take (nat index) (Items l))
        @ [(Items l ! nat index)\<lparr>Done := True\<rparr>]
        @ completed_items (drop (nat index + 1) (Items l))
    \<and> Items (snd (Complete index l))
        ! (length (incomplete_items (take (nat index) (Items l)))
           + length (incomplete_items (drop (nat index + 1) (Items l)))
           + length (completed_items (take (nat index) (Items l))))
        = (Items l ! nat index)\<lparr>Done := True\<rparr>"
proof -
  let ?xs = "Items l" and ?i = "nat index"
  let ?y = "(?xs ! ?i)\<lparr>Done := True\<rparr>"
  let ?a = "incomplete_items (take ?i ?xs) @ incomplete_items (drop (?i + 1) ?xs)"
  let ?b = "completed_items (take ?i ?xs)"
  let ?c = "completed_items (drop (?i + 1) ?xs)"
  have res: "Complete index l = (None, l\<lparr>Items := ?a @ ?b @ [?y] @ ?c\<rparr>)"
    using Complete_Items [OF assms] by simp
  have items: "Items (snd (Complete index l)) = ?a @ ?b @ [?y] @ ?c"
    by (simp add: res)
  from assms have lt: "?i < length ?xs"
    by simp
  then have upd: "?xs[?i := ?y] = take ?i ?xs @ ?y # drop (?i + 1) ?xs"
    by (simp add: upd_conv_take_nth_drop)
  have part: "?a @ ?b @ [?y] @ ?c =
      filter (\<lambda>x. \<not> Done x) (?xs[?i := ?y]) @ filter Done (?xs[?i := ?y])"
    by (simp only: upd) (simp add: incomplete_items_def completed_items_def)
  have c1: "fst (Complete index l) = None"
    by (simp add: res)
  have c2: "completed_last (Items (snd (Complete index l)))"
    by (simp only: items part completed_last_partition)
  have c3: "incomplete_items (Items (snd (Complete index l))) = ?a"
    by (simp add: items) (simp add: incomplete_items_def completed_items_def)
  have c4: "completed_items (Items (snd (Complete index l))) = ?b @ [?y] @ ?c"
    by (simp add: items) (simp add: incomplete_items_def completed_items_def)
  have c5: "Items (snd (Complete index l))
      ! (length (incomplete_items (take ?i ?xs)) + length (incomplete_items (drop (?i + 1) ?xs))
         + length ?b) = ?y"
    by (simp only: items) (simp add: nth_append)
  from c1 c2 c3 c4 c5 show ?thesis
    by blast
qed

theorem Complete_valid_index_witness:
  "(0::int) \<le> 0 \<and> (0::int) < int (length (Items three_tasks))
   \<and> fst (Complete 0 three_tasks) = None
   \<and> completed_last (Items (snd (Complete 0 three_tasks)))
   \<and> map Text (incomplete_items (Items (snd (Complete 0 three_tasks)))) = [''Task 2'', ''Task 3'']
   \<and> map Text (completed_items (Items (snd (Complete 0 three_tasks)))) = [''Task 1'']
   \<and> Items (snd (Complete 0 three_tasks)) ! 2 = (Items three_tasks ! 0)\<lparr>Done := True\<rparr>"
proof -
  have h1: "(0::int) \<le> 0" and h2: "(0::int) < int (length (Items three_tasks))"
    by (simp_all add: Items_three_tasks)
  show ?thesis
    using Complete_valid_index [OF h1 h2] h2
    by (simp add: Items_three_tasks incomplete_items_def completed_items_def NewItem_def
        numeral_2_eq_2)
qed

section \<open>Index checks\<close>

text \<open>
  Claim C2. Each of the eight index-taking operations, called with an index below 0 or
  at least the length of the list, returns the index-out-of-range error and leaves the
  list exactly as it was: the same items, in the same order, with the same fields.
\<close>

theorem index_out_of_range_no_change:
  assumes "index < 0 \<or> int (length (Items l)) \<le> index"
  shows "Complete index l = (Some ErrIndexOutOfRange, l)
    \<and> Uncomplete index l = (Some ErrIndexOutOfRange, l)
    \<and> Delete index l = (Some ErrIndexOutOfRange, l)
    \<and> Edit index newText l = (Some ErrIndexOutOfRange, l)
    \<and> SetPriority index priority l = (Some ErrIndexOutOfRange, l)
    \<and> SetDueDate index dueDate l = (Some ErrIndexOutOfRange, l)
    \<and> AddTag index tag l = (Some ErrIndexOutOfRange, l)
    \<and> RemoveTag index tag l = (Some ErrIndexOutOfRange, l)"
  using assms
  by (auto simp add: Complete_def Uncomplete_def Delete_def Edit_def SetPriority_def
      SetDueDate_def AddTag_def RemoveTag_def)

text \<open>On the three tasks, with the indices \<open>-1\<close> and \<open>10\<close>.\<close>

theorem index_out_of_range_no_change_witness:
  "((-1::int) < 0 \<or> int (length (Items three_tasks)) \<le> -1)
   \<and> ((10::int) < 0 \<or> int (length (Items three_tasks)) \<le> 10)
   \<and> Complete (-1) three_tasks = (Some ErrIndexOutOfRange, three_tasks)
   \<and> Delete 10 three_tasks = (Some ErrIndexOutOfRange, three_tasks)
   \<and> Edit 10 [] three_tasks = (Some ErrIndexOutOfRange, three_tasks)
   \<and> RemoveTag 10 ''work'' three_tasks = (Some ErrIndexOutOfRange, three_tasks)"
proof -
  have h1: "(-1::int) < 0 \<or> int (length (Items three_tasks)) \<le> -1"
    by simp
  have h2: "(10::int) < 0 \<or> int (length (Items three_tasks)) \<le> 10"
    by (simp add: Items_three_tasks)
  from index_out_of_range_no_change [OF h1]
  have a: "Complete (-1) three_tasks = (Some ErrIndexOutOfRange, three_tasks)"
    by blast
  from index_out_of_range_no_change [OF h2, of "[]" 0 0 "''work''"]
  have b: "Delete 10 three_tasks = (Some ErrIndexOutOfRange, three_tasks)"
    and c: "Edit 10 [] three_tasks = (Some ErrIndexOutOfRange, three_tasks)"
    and d: "RemoveTag 10 ''work'' three_tasks = (Some ErrIndexOutOfRange, three_tasks)"
    by blast+
  from h1 h2 a b c d show ?thesis
    by blast
qed

section \<open>Add\<close>

lemma Add_loop_iff: "Add_loop xs item \<longleftrightarrow> (\<exists>x \<in> set xs. Text x = Text item)"
  by (induction xs) auto

text \<open>
  Claim C3. If some item of the list has the text \<open>t\<close>, \<open>Add(t)\<close> returns the
  item-exists error and the list is unchanged. Otherwise it returns no error and the
  list is the old one followed by one new item, whose text is \<open>t\<close>, so the length grows
  by one. After any \<open>Add(t)\<close>, a second \<open>Add(t)\<close> fails and changes nothing.
\<close>

theorem Add_duplicate_or_append:
  "((\<exists>x \<in> set (Items l). Text x = t) \<longrightarrow> Add now t l = (Some ErrItemExists, l))
   \<and> (\<not> (\<exists>x \<in> set (Items l). Text x = t) \<longrightarrow>
        Add now t l = (None, l\<lparr>Items := Items l @ [NewItem now t]\<rparr>)
        \<and> Text (NewItem now t) = t
        \<and> length (Items (snd (Add now t l))) = length (Items l) + 1)
   \<and> Add now2 t (snd (Add now t l)) = (Some ErrItemExists, snd (Add now t l))"
proof -
  have tx_new: "Text (NewItem n t) = t" for n
    by (simp add: NewItem_def)
  have dup: "Add n t k = (Some ErrItemExists, k)" if "\<exists>x \<in> set (Items k). Text x = t" for n k
    using that by (simp add: Add_def Add_loop_iff tx_new)
  have new: "Add n t k = (None, k\<lparr>Items := Items k @ [NewItem n t]\<rparr>)"
    if "\<not> (\<exists>x \<in> set (Items k). Text x = t)" for n k
    using that by (simp add: Add_def Add_loop_iff tx_new)
  have "\<exists>x \<in> set (Items (snd (Add now t l))). Text x = t"
  proof (cases "\<exists>x \<in> set (Items l). Text x = t")
    case True
    then show ?thesis by (simp add: dup)
  next
    case False
    then show ?thesis by (simp add: new tx_new)
  qed
  then have again: "Add now2 t (snd (Add now t l)) = (Some ErrItemExists, snd (Add now t l))"
    by (rule dup)
  from dup new tx_new again show ?thesis
    by simp
qed

theorem Add_duplicate_or_append_witness:
  "\<not> (\<exists>x \<in> set (Items NewList). Text x = ''Buy Milk'')
   \<and> Add 1 ''Buy Milk'' NewList = (None, \<lparr>Items = [NewItem 1 ''Buy Milk'']\<rparr>)
   \<and> (\<exists>x \<in> set (Items \<lparr>Items = [NewItem 1 ''Buy Milk'']\<rparr>). Text x = ''Buy Milk'')
   \<and> Add 2 ''Buy Milk'' \<lparr>Items = [NewItem 1 ''Buy Milk'']\<rparr> =
       (Some ErrItemExists, \<lparr>Items = [NewItem 1 ''Buy Milk'']\<rparr>)"
proof -
  have h1: "\<not> (\<exists>x \<in> set (Items NewList). Text x = ''Buy Milk'')"
    by (simp add: NewList_def)
  have h2: "\<exists>x \<in> set (Items \<lparr>Items = [NewItem 1 ''Buy Milk'']\<rparr>). Text x = ''Buy Milk''"
    by (simp add: NewItem_def)
  from h1 Add_duplicate_or_append [of NewList "''Buy Milk''" 1]
  have a: "Add 1 ''Buy Milk'' NewList = (None, \<lparr>Items = [NewItem 1 ''Buy Milk'']\<rparr>)"
    by (simp add: NewList_def)
  from h2 Add_duplicate_or_append [of "\<lparr>Items = [NewItem 1 ''Buy Milk'']\<rparr>" "''Buy Milk''" 2]
  have b: "Add 2 ''Buy Milk'' \<lparr>Items = [NewItem 1 ''Buy Milk'']\<rparr> =
       (Some ErrItemExists, \<lparr>Items = [NewItem 1 ''Buy Milk'']\<rparr>)"
    by blast
  from h1 h2 a b show ?thesis
    by blast
qed

text \<open>
  Claim C5 says that every reachable list has only non-empty texts. \<open>Add\<close> has no check
  of the text: on the new list, \<open>Add("")\<close> returns no error and the list then holds one
  item whose text is empty. \<open>Edit\<close>, in contrast, refuses the empty text.
\<close>

theorem Add_accepts_empty_text:
  "Add 1 [] NewList = (None, \<lparr>Items = [NewItem 1 []]\<rparr>)
   \<and> reachable (snd (Add 1 [] NewList))
   \<and> map Text (Items (snd (Add 1 [] NewList))) = [[]]
   \<and> Edit 0 [] (snd (Add 1 ''x'' NewList)) = (Some ErrEmptyText, snd (Add 1 ''x'' NewList))"
proof -
  have "reachable (snd (Add 1 [] NewList))"
    by (rule reach_Add) (rule reach_NewList)
  then show ?thesis
    by (simp add: Add_def NewList_def NewItem_def Edit_def)
qed

section \<open>GetOverdue\<close>

lemma GetOverdue_loop_filter:
  "GetOverdue_loop xs now results = results @ filter (overdue now) xs"
  by (induction xs arbitrary: results) (auto simp add: overdue_def Before_def split: option.splits)

text \<open>
  Claim C9. \<open>GetOverdue\<close> returns, in list order, exactly the items that have a due date
  strictly before \<open>now\<close> and are not done, and leaves the list as it was. (So an item
  without a due date, and a done item whatever its due date, are not returned.)
\<close>

theorem GetOverdue_filter:
  "GetOverdue now l = (filter (overdue now) (Items l), l)"
  by (simp add: GetOverdue_def GetOverdue_loop_filter)

text \<open>
  At the instant 100, of the tasks A (due 50), C (due 200), D (no due date) and
  B (due 50, done), only A is overdue.
\<close>

theorem GetOverdue_filter_witness:
  "map Text (filter (overdue 100) (Items due_tasks)) = [''A'']
   \<and> map Text (Items due_tasks) = [''A'', ''C'', ''D'', ''B'']
   \<and> map DueDate (Items due_tasks) = [Some 50, Some 200, None, Some 50]
   \<and> map Done (Items due_tasks) = [False, False, False, True]
   \<and> snd (GetOverdue 100 due_tasks) = due_tasks"
proof -
  have items: "Items due_tasks =
      [(NewItem 1 ''A'')\<lparr>DueDate := Some 50\<rparr>, (NewItem 3 ''C'')\<lparr>DueDate := Some 200\<rparr>,
       NewItem 4 ''D'', (NewItem 2 ''B'')\<lparr>DueDate := Some 50, Done := True\<rparr>]"
    by (simp add: due_tasks_def Add_def NewList_def NewItem_def SetDueDate_def Complete_def
        Sort_def)
  have run: "map Text (fst (GetOverdue 100 due_tasks)) = [''A'']"
    by (simp add: GetOverdue_def items NewItem_def Before_def)
  from GetOverdue_filter [of 100 due_tasks]
  have "fst (GetOverdue 100 due_tasks) = filter (overdue 100) (Items due_tasks)"
    and "snd (GetOverdue 100 due_tasks) = due_tasks"
    by simp_all
  with run show ?thesis
    by (simp add: items NewItem_def)
qed

section \<open>Search\<close>

subsection \<open>The empty query\<close>

lemma Contains_empty [simp]: "Contains s []"
  by (cases s) simp_all

lemma ToLower_Nil [simp]: "ToLower caseTable [] = []"
  by (simp add: ToLower_def)

lemma Search_loop_empty: "Search_loop caseTable xs [] results = results @ xs"
  by (induction xs arbitrary: results) simp_all

text \<open>
  Claim C10. With the empty query, \<open>Search\<close> returns every item of the list, in list
  order, and leaves the list as it was.
\<close>

theorem Search_empty_query: "Search caseTable [] l = (Items l, l)"
  by (simp add: Search_def Search_loop_empty)

subsection \<open>Writing and reading code points\<close>

lemma decodeRunes_Nil [simp]: "decodeRunes [] = []"
  by (simp add: decodeRunes.simps)

lemma of_char_lt_256: "(of_char c :: nat) < 256"
proof -
  have "(of_char c :: nat) = of_char (char_of (of_char c :: nat))"
    by simp
  also have "\<dots> = (of_char c :: nat) mod 256"
    by (simp only: of_char_of)
  finally have "(of_char c :: nat) = of_char c mod 256" .
  moreover have "(of_char c :: nat) mod 256 < 256"
    by (rule mod_less_divisor) simp
  ultimately show ?thesis
    by simp
qed




lemma AppendRune_1: "r \<le> 127 \<Longrightarrow> AppendRune r = [char_of r]"
  by (simp add: AppendRune_def)

lemma AppendRune_2:
  "127 < r \<Longrightarrow> r \<le> 2047 \<Longrightarrow>
   AppendRune r = [char_of (192 + r div 64), char_of (128 + r mod 64)]"
  by (simp add: AppendRune_def)

lemma AppendRune_3:
  assumes "2047 < r" and "r \<le> 65535" and "r < 55296 \<or> 57343 < r"
  shows "AppendRune r = [char_of (224 + r div 4096), char_of (128 + (r div 64) mod 64),
                   char_of (128 + r mod 64)]"
proof -
  from assms(3) have "\<not> (55296 \<le> r \<and> r \<le> 57343)"
    by linarith
  moreover from assms(2) have "\<not> MaxRune < r"
    by (simp add: MaxRune_def)
  moreover from assms(1) have "\<not> r \<le> 127" "\<not> r \<le> 2047"
    by linarith+
  ultimately show ?thesis
    using assms(2) unfolding AppendRune_def by (simp only: if_False if_True simp_thms)
qed

lemma AppendRune_4:
  "65535 < r \<Longrightarrow> r \<le> 1114111 \<Longrightarrow>
   AppendRune r = [char_of (240 + r div 262144), char_of (128 + (r div 4096) mod 64),
                   char_of (128 + (r div 64) mod 64), char_of (128 + r mod 64)]"
  by (simp add: AppendRune_def MaxRune_def)


lemma Decode_1:
  assumes "(of_char c0 :: nat) < 128"
  shows "DecodeRuneInString (c0 # u) = (of_char c0, 1)"
  using assms by (simp add: DecodeRuneInString_def Let_def)

lemma Decode_2:
  assumes "194 \<le> (of_char c0 :: nat)" and "(of_char c0 :: nat) \<le> 223"
    and "128 \<le> (of_char c1 :: nat)" and "(of_char c1 :: nat) \<le> 191"
  shows "DecodeRuneInString (c0 # c1 # u) =
    ((of_char c0 mod 32) * 64 + of_char c1 mod 64, 2)"
  using assms by (simp add: DecodeRuneInString_def Let_def)

lemma Decode_3:
  assumes "224 \<le> (of_char c0 :: nat)" and "(of_char c0 :: nat) \<le> 239"
    and "(if (of_char c0 :: nat) = 224 then 160 else 128) \<le> (of_char c1 :: nat)"
    and "(of_char c1 :: nat) \<le> (if (of_char c0 :: nat) = 237 then 159 else 191)"
    and "128 \<le> (of_char c2 :: nat)" and "(of_char c2 :: nat) \<le> 191"
  shows "DecodeRuneInString (c0 # c1 # c2 # u) =
    ((of_char c0 mod 16) * 4096 + (of_char c1 mod 64) * 64 + of_char c2 mod 64, 3)"
  using assms by (simp add: DecodeRuneInString_def Let_def split: if_splits)

lemma Decode_4:
  assumes "240 \<le> (of_char c0 :: nat)" and "(of_char c0 :: nat) \<le> 244"
    and "(if (of_char c0 :: nat) = 240 then 144 else 128) \<le> (of_char c1 :: nat)"
    and "(of_char c1 :: nat) \<le> (if (of_char c0 :: nat) = 244 then 143 else 191)"
    and "128 \<le> (of_char c2 :: nat)" and "(of_char c2 :: nat) \<le> 191"
    and "128 \<le> (of_char c3 :: nat)" and "(of_char c3 :: nat) \<le> 191"
  shows "DecodeRuneInString (c0 # c1 # c2 # c3 # u) =
    ((of_char c0 mod 8) * 262144 + (of_char c1 mod 64) * 4096 + (of_char c2 mod 64) * 64
     + of_char c3 mod 64, 4)"
  using assms by (simp add: DecodeRuneInString_def Let_def split: if_splits)

lemma mod_shift:
  fixes a :: nat
  assumes "a < m"
  shows "(k * m + a) mod m = a"
proof -
  have "(k * m + a) mod m = a mod m"
    by (simp only: mod_mult_self3)
  with assms show ?thesis
    by simp
qed











lemma length_AppendRune_pos: "AppendRune r \<noteq> []"
  by (simp add: AppendRune_def)


subsection \<open>Substrings of written code points\<close>

lemma encodeRunes_Nil [simp]: "encodeRunes [] = []"
  by (simp add: encodeRunes_def)

lemma encodeRunes_Cons [simp]: "encodeRunes (r # rs) = AppendRune r @ encodeRunes rs"
  by (simp add: encodeRunes_def)

lemma encodeRunes_eq_Nil [simp]: "encodeRunes rs = [] \<longleftrightarrow> rs = []"
  by (cases rs) (simp_all add: length_AppendRune_pos)



lemma HasPrefix_take: "HasPrefix s p \<longleftrightarrow> take (length p) s = p"
  by (induction s p rule: HasPrefix.induct) auto





subsection \<open>What is read from a string\<close>



lemma mod_low:
  fixes s :: nat
  assumes "k * m \<le> s" and "s < k * m + m"
  shows "s mod m = s - k * m"
proof -
  have "(k * m + (s - k * m)) mod m = s - k * m"
    by (rule mod_shift) (use assms in linarith)
  moreover have "k * m + (s - k * m) = s"
    using assms(1) by linarith
  ultimately show ?thesis
    by simp
qed


lemma valid3:
  assumes "224 \<le> s0" and "s0 \<le> 239" and "128 \<le> s1"
    and "s1 \<le> (if s0 = 237 then 159 else 191)"
  shows "ValidRune ((s0 mod 16) * 4096 + (s1 mod 64) * 64 + s2 mod 64)"
proof -
  have a: "s0 mod 16 = s0 - 224"
    using mod_low [of 14 16 s0] assms(1,2) by simp
  from assms(3,4) have "s1 \<le> 191"
    by (simp split: if_splits)
  with assms(3) have b: "s1 mod 64 = s1 - 128"
    using mod_low [of 2 64 s1] by simp
  have c: "s2 mod 64 < 64"
    by simp
  let ?r = "(s0 mod 16) * 4096 + (s1 mod 64) * 64 + s2 mod 64"
  have r: "?r = (s0 - 224) * 4096 + (s1 - 128) * 64 + s2 mod 64"
    by (simp only: a b)
  have "?r < 55296 \<or> 57343 < ?r"
  proof (cases "s0 = 237")
    case True
    with assms(4) have "s1 \<le> 159"
      by simp
    with True c assms(3) have "?r < 55296"
      unfolding r by simp
    then show ?thesis ..
  next
    case False
    then consider "s0 \<le> 236" | "238 \<le> s0"
      by linarith
    then show ?thesis
    proof cases
      case 1
      with assms(1) \<open>s1 \<le> 191\<close> c have "?r < 55296"
        unfolding r by linarith
      then show ?thesis ..
    next
      case 2
      then have "57343 < ?r"
        unfolding r by linarith
      then show ?thesis ..
    qed
  qed
  moreover have "?r \<le> 1114111"
    unfolding r using assms(2) \<open>s1 \<le> 191\<close> c by linarith
  ultimately show ?thesis
    unfolding ValidRune_def MaxRune_def by linarith
qed

lemma valid4:
  assumes "240 \<le> s0" and "s0 \<le> 244" and "(if s0 = 240 then 144 else 128) \<le> s1"
    and "s1 \<le> (if s0 = 244 then 143 else 191)"
  shows "ValidRune ((s0 mod 8) * 262144 + (s1 mod 64) * 4096 + (s2 mod 64) * 64 + s3 mod 64)"
proof -
  have a: "s0 mod 8 = s0 - 240"
    using mod_low [of 30 8 s0] assms(1,2) by simp
  from assms(3) have lo: "128 \<le> s1"
    by (simp split: if_splits)
  from assms(4) have hi: "s1 \<le> 191"
    by (simp split: if_splits)
  from lo hi have b: "s1 mod 64 = s1 - 128"
    using mod_low [of 2 64 s1] by simp
  have c: "s2 mod 64 < 64" and d: "s3 mod 64 < 64"
    by simp_all
  let ?r = "(s0 mod 8) * 262144 + (s1 mod 64) * 4096 + (s2 mod 64) * 64 + s3 mod 64"
  have r: "?r = (s0 - 240) * 262144 + (s1 - 128) * 4096 + (s2 mod 64) * 64 + s3 mod 64"
    by (simp only: a b)
  have "57343 < ?r"
  proof (cases "s0 = 240")
    case True
    with assms(3) have "144 \<le> s1"
      by simp
    then show ?thesis
      unfolding r by linarith
  next
    case False
    with assms(1) have "241 \<le> s0"
      by linarith
    then show ?thesis
      unfolding r by linarith
  qed
  moreover have "?r \<le> 1114111"
  proof (cases "s0 = 244")
    case True
    with assms(4) have "s1 \<le> 143"
      by simp
    with True c d show ?thesis
      unfolding r by simp
  next
    case False
    with assms(2) have "s0 \<le> 243"
      by linarith
    with hi c d show ?thesis
      unfolding r by linarith
  qed
  ultimately show ?thesis
    unfolding ValidRune_def MaxRune_def by linarith
qed



subsection \<open>Writing what was read\<close>

lemma Decode_shapes:
  "s = []
   \<or> DecodeRuneInString s = (RuneError, 1)
   \<or> (\<exists>c0 u. s = c0 # u \<and> (of_char c0 :: nat) < 128
        \<and> DecodeRuneInString s = (of_char c0, 1))
   \<or> (\<exists>c0 c1 u. s = c0 # c1 # u
        \<and> 194 \<le> (of_char c0 :: nat) \<and> (of_char c0 :: nat) \<le> 223
        \<and> 128 \<le> (of_char c1 :: nat) \<and> (of_char c1 :: nat) \<le> 191
        \<and> DecodeRuneInString s = ((of_char c0 mod 32) * 64 + of_char c1 mod 64, 2))
   \<or> (\<exists>c0 c1 c2 u. s = c0 # c1 # c2 # u
        \<and> 224 \<le> (of_char c0 :: nat) \<and> (of_char c0 :: nat) \<le> 239
        \<and> (if (of_char c0 :: nat) = 224 then 160 else 128) \<le> (of_char c1 :: nat)
        \<and> (of_char c1 :: nat) \<le> (if (of_char c0 :: nat) = 237 then 159 else 191)
        \<and> 128 \<le> (of_char c2 :: nat) \<and> (of_char c2 :: nat) \<le> 191
        \<and> DecodeRuneInString s =
            ((of_char c0 mod 16) * 4096 + (of_char c1 mod 64) * 64 + of_char c2 mod 64, 3))
   \<or> (\<exists>c0 c1 c2 c3 u. s = c0 # c1 # c2 # c3 # u
        \<and> 240 \<le> (of_char c0 :: nat) \<and> (of_char c0 :: nat) \<le> 244
        \<and> (if (of_char c0 :: nat) = 240 then 144 else 128) \<le> (of_char c1 :: nat)
        \<and> (of_char c1 :: nat) \<le> (if (of_char c0 :: nat) = 244 then 143 else 191)
        \<and> 128 \<le> (of_char c2 :: nat) \<and> (of_char c2 :: nat) \<le> 191
        \<and> 128 \<le> (of_char c3 :: nat) \<and> (of_char c3 :: nat) \<le> 191
        \<and> DecodeRuneInString s =
            ((of_char c0 mod 8) * 262144 + (of_char c1 mod 64) * 4096
             + (of_char c2 mod 64) * 64 + of_char c3 mod 64, 4))"
  (is "_ \<or> ?E \<or> ?A \<or> ?B \<or> ?C \<or> ?D")
proof (cases s)
  case Nil
  then show ?thesis by simp
next
  case s: (Cons c0 u0)
  let ?s0 = "of_char c0 :: nat"
  consider (ascii) "?s0 < 128" | (bad) "128 \<le> ?s0" "?s0 < 194 \<or> 244 < ?s0"
    | (two) "194 \<le> ?s0" "?s0 \<le> 223" | (three) "224 \<le> ?s0" "?s0 \<le> 239"
    | (four) "240 \<le> ?s0" "?s0 \<le> 244"
    by linarith
  then show ?thesis
  proof cases
    case ascii
    then have "DecodeRuneInString s = (?s0, 1)"
      unfolding s by (rule Decode_1)
    with ascii s have ?A by blast
    then show ?thesis by blast
  next
    case bad
    then have ?E
      by (auto simp add: s DecodeRuneInString_def Let_def)
    then show ?thesis by blast
  next
    case two
    show ?thesis
    proof (cases u0)
      case Nil
      with two have ?E
        by (simp add: s DecodeRuneInString_def Let_def)
      then show ?thesis by blast
    next
      case u0: (Cons c1 u1)
      let ?s1 = "of_char c1 :: nat"
      show ?thesis
      proof (cases "128 \<le> ?s1 \<and> ?s1 \<le> 191")
        case True
        with two have "DecodeRuneInString (c0 # c1 # u1) = ((?s0 mod 32) * 64 + ?s1 mod 64, 2)"
          by (intro Decode_2) simp_all
        with two True s u0 have ?B by blast
        then show ?thesis by blast
      next
        case False
        with two have ?E
          by (auto simp add: s u0 DecodeRuneInString_def Let_def)
        then show ?thesis by blast
      qed
    qed
  next
    case three
    let ?lo = "(if ?s0 = 224 then 160 else 128 :: nat)"
    let ?hi = "(if ?s0 = 237 then 159 else 191 :: nat)"
    show ?thesis
    proof (cases u0)
      case Nil
      with three have ?E
        by (simp add: s DecodeRuneInString_def Let_def)
      then show ?thesis by blast
    next
      case u0: (Cons c1 u1)
      let ?s1 = "of_char c1 :: nat"
      show ?thesis
      proof (cases u1)
        case Nil
        with three have ?E
          by (simp add: s u0 DecodeRuneInString_def Let_def)
        then show ?thesis by blast
      next
        case u1: (Cons c2 u2)
        let ?s2 = "of_char c2 :: nat"
        show ?thesis
        proof (cases "?lo \<le> ?s1 \<and> ?s1 \<le> ?hi \<and> 128 \<le> ?s2 \<and> ?s2 \<le> 191")
          case True
          with three have "DecodeRuneInString (c0 # c1 # c2 # u2) =
              ((?s0 mod 16) * 4096 + (?s1 mod 64) * 64 + ?s2 mod 64, 3)"
            by (intro Decode_3) simp_all
          with three True s u0 u1 have ?C by blast
          then show ?thesis by blast
        next
          case False
          with three have ?E
            by (auto simp add: s u0 u1 DecodeRuneInString_def Let_def)
          then show ?thesis by blast
        qed
      qed
    qed
  next
    case four
    let ?lo = "(if ?s0 = 240 then 144 else 128 :: nat)"
    let ?hi = "(if ?s0 = 244 then 143 else 191 :: nat)"
    show ?thesis
    proof (cases u0)
      case Nil
      with four have ?E
        by (simp add: s DecodeRuneInString_def Let_def)
      then show ?thesis by blast
    next
      case u0: (Cons c1 u1)
      let ?s1 = "of_char c1 :: nat"
      show ?thesis
      proof (cases u1)
        case Nil
        with four have ?E
          by (simp add: s u0 DecodeRuneInString_def Let_def)
        then show ?thesis by blast
      next
        case u1: (Cons c2 u2)
        let ?s2 = "of_char c2 :: nat"
        show ?thesis
        proof (cases u2)
          case Nil
          with four have ?E
            by (simp add: s u0 u1 DecodeRuneInString_def Let_def)
          then show ?thesis by blast
        next
          case u2: (Cons c3 u3)
          let ?s3 = "of_char c3 :: nat"
          show ?thesis
          proof (cases "?lo \<le> ?s1 \<and> ?s1 \<le> ?hi \<and> 128 \<le> ?s2 \<and> ?s2 \<le> 191
              \<and> 128 \<le> ?s3 \<and> ?s3 \<le> 191")
            case True
            with four have "DecodeRuneInString (c0 # c1 # c2 # c3 # u3) =
                ((?s0 mod 8) * 262144 + (?s1 mod 64) * 4096 + (?s2 mod 64) * 64
                 + ?s3 mod 64, 4)"
              by (intro Decode_4) simp_all
            with four True s u0 u1 u2 have ?D by blast
            then show ?thesis by blast
          next
            case False
            with four have ?E
              by (auto simp add: s u0 u1 u2 DecodeRuneInString_def Let_def)
            then show ?thesis by blast
          qed
        qed
      qed
    qed
  qed
qed

lemma dig2:
  fixes a b :: nat
  assumes "b < 64"
  shows "(a * 64 + b) div 64 = a" and "(a * 64 + b) mod 64 = b"
  using assms by simp_all

lemma dig3:
  fixes a b d :: nat
  assumes "b < 64" and "d < 64"
  shows "(a * 4096 + b * 64 + d) div 4096 = a"
    and "((a * 4096 + b * 64 + d) div 64) mod 64 = b"
    and "(a * 4096 + b * 64 + d) mod 64 = d"
proof -
  have e: "a * 4096 + b * 64 + d = (a * 64 + b) * 64 + d"
    by simp
  have q: "(a * 4096 + b * 64 + d) div 64 = a * 64 + b"
    unfolding e using assms(2) by (rule dig2(1))
  show "(a * 4096 + b * 64 + d) mod 64 = d"
    unfolding e using assms(2) by (rule dig2(2))
  show "((a * 4096 + b * 64 + d) div 64) mod 64 = b"
    unfolding q using assms(1) by (rule dig2(2))
  have "(a * 4096 + b * 64 + d) div 4096 = (a * 4096 + b * 64 + d) div 64 div 64"
    by (simp add: div_mult2_eq [symmetric])
  also have "\<dots> = a"
    unfolding q using assms(1) by (rule dig2(1))
  finally show "(a * 4096 + b * 64 + d) div 4096 = a" .
qed

lemma dig4:
  fixes a b d e :: nat
  assumes "b < 64" and "d < 64" and "e < 64"
  shows "(a * 262144 + b * 4096 + d * 64 + e) div 262144 = a"
    and "((a * 262144 + b * 4096 + d * 64 + e) div 4096) mod 64 = b"
    and "((a * 262144 + b * 4096 + d * 64 + e) div 64) mod 64 = d"
    and "(a * 262144 + b * 4096 + d * 64 + e) mod 64 = e"
proof -
  let ?r = "a * 262144 + b * 4096 + d * 64 + e"
  have e3: "?r = (a * 64 + b) * 4096 + d * 64 + e"
    by simp
  show "?r mod 64 = e"
    unfolding e3 using assms(2,3) by (rule dig3(3))
  show "(?r div 64) mod 64 = d"
    unfolding e3 using assms(2,3) by (rule dig3(2))
  have p: "?r div 4096 = a * 64 + b"
    unfolding e3 using assms(2,3) by (rule dig3(1))
  show "(?r div 4096) mod 64 = b"
    unfolding p using assms(1) by (rule dig2(2))
  have "?r div 262144 = ?r div 4096 div 64"
    by (simp add: div_mult2_eq [symmetric])
  also have "\<dots> = a"
    unfolding p using assms(1) by (rule dig2(1))
  finally show "?r div 262144 = a" .
qed

lemma char_of_byte: "char_of (of_char c :: nat) = c"
  by simp

text \<open>
  Writing a code point that was read from a valid encoding gives the bytes it was read
  from.
\<close>

lemma AppendRune_Decode:
  assumes "s \<noteq> []" and "DecodeRuneInString s = (c, w)" and "\<not> (c = RuneError \<and> w = 1)"
  shows "AppendRune c = take w s"
  using Decode_shapes [of s]
proof (elim disjE exE conjE)
  assume "s = []"
  with assms(1) show ?thesis by simp
next
  assume "DecodeRuneInString s = (RuneError, 1)"
  with assms(2,3) show ?thesis by simp
next
  fix c0 u
  assume A: "s = c0 # u" "(of_char c0 :: nat) < 128"
    "DecodeRuneInString s = (of_char c0, 1)"
    with assms(2) have c: "c = of_char c0" and w: "w = 1"
      by simp_all
    from A(2) have "AppendRune (of_char c0) = [char_of (of_char c0 :: nat)]"
      by (intro AppendRune_1) linarith
    then show ?thesis
      by (simp add: c w A(1))
next
  fix c0 c1 u
  assume B: "s = c0 # c1 # u"
    "194 \<le> (of_char c0 :: nat)" "(of_char c0 :: nat) \<le> 223"
    "128 \<le> (of_char c1 :: nat)" "(of_char c1 :: nat) \<le> 191"
    "DecodeRuneInString s = ((of_char c0 mod 32) * 64 + of_char c1 mod 64, 2)"
    let ?s0 = "of_char c0 :: nat" and ?s1 = "of_char c1 :: nat"
    let ?a = "?s0 - 192" and ?b = "?s1 - 128"
    from assms(2) B(6) have c: "c = (?s0 mod 32) * 64 + ?s1 mod 64" and w: "w = 2"
      by simp_all
    have m0: "?s0 mod 32 = ?a"
      using mod_low [of 6 32 ?s0] B(2,3) by simp
    have m1: "?s1 mod 64 = ?b"
      using mod_low [of 2 64 ?s1] B(4,5) by simp
    have b: "?b < 64"
      using B(5) by linarith
    have c': "c = ?a * 64 + ?b"
      by (simp only: c m0 m1)
    have lo: "127 < c" and hi: "c \<le> 2047"
      unfolding c' using B(2,3) b by linarith+
    have "AppendRune c = [char_of (192 + c div 64), char_of (128 + c mod 64)]"
      using lo hi by (rule AppendRune_2)
    also have "c div 64 = ?a"
      unfolding c' using b by (rule dig2(1))
    also have "c mod 64 = ?b"
      unfolding c' using b by (rule dig2(2))
    also have "192 + ?a = ?s0"
      using B(2) by linarith
    also have "128 + ?b = ?s1"
      using B(4) by linarith
    finally show ?thesis
      by (simp add: w B(1))
next
  fix c0 c1 c2 u
  assume C: "s = c0 # c1 # c2 # u"
    "224 \<le> (of_char c0 :: nat)" "(of_char c0 :: nat) \<le> 239"
    "(if (of_char c0 :: nat) = 224 then 160 else 128) \<le> (of_char c1 :: nat)"
    "(of_char c1 :: nat) \<le> (if (of_char c0 :: nat) = 237 then 159 else 191)"
    "128 \<le> (of_char c2 :: nat)" "(of_char c2 :: nat) \<le> 191"
    "DecodeRuneInString s =
        ((of_char c0 mod 16) * 4096 + (of_char c1 mod 64) * 64 + of_char c2 mod 64, 3)"
    let ?s0 = "of_char c0 :: nat" and ?s1 = "of_char c1 :: nat" and ?s2 = "of_char c2 :: nat"
    let ?a = "?s0 - 224" and ?b = "?s1 - 128" and ?d = "?s2 - 128"
    from assms(2) C(8) have c: "c = (?s0 mod 16) * 4096 + (?s1 mod 64) * 64 + ?s2 mod 64"
      and w: "w = 3"
      by simp_all
    from C(4) have s1_lo: "128 \<le> ?s1"
      by (simp split: if_splits)
    from C(5) have s1_hi: "?s1 \<le> 191"
      by (simp split: if_splits)
    have m0: "?s0 mod 16 = ?a"
      using mod_low [of 14 16 ?s0] C(2,3) by simp
    have m1: "?s1 mod 64 = ?b"
      using mod_low [of 2 64 ?s1] s1_lo s1_hi by simp
    have m2: "?s2 mod 64 = ?d"
      using mod_low [of 2 64 ?s2] C(6,7) by simp
    have b: "?b < 64" and d: "?d < 64"
      using s1_hi C(7) by linarith+
    have c': "c = ?a * 4096 + ?b * 64 + ?d"
      by (simp only: c m0 m1 m2)
    have "ValidRune c"
      unfolding c using C(2,3) s1_lo C(5) by (rule valid3)
    then have ns: "c < 55296 \<or> 57343 < c"
      unfolding ValidRune_def by linarith
    have lo: "2047 < c"
    proof (cases "?s0 = 224")
      case True
      with C(4) have "160 \<le> ?s1"
        by simp
      then show ?thesis
        unfolding c' by linarith
    next
      case False
      with C(2) have "1 \<le> ?a"
        by linarith
      then show ?thesis
        unfolding c' by linarith
    qed
    have hi: "c \<le> 65535"
      unfolding c' using C(3) b d by linarith
    have "AppendRune c = [char_of (224 + c div 4096), char_of (128 + (c div 64) mod 64),
        char_of (128 + c mod 64)]"
      using lo hi ns by (rule AppendRune_3)
    also have "c div 4096 = ?a"
      unfolding c' using b d by (rule dig3(1))
    also have "(c div 64) mod 64 = ?b"
      unfolding c' using b d by (rule dig3(2))
    also have "c mod 64 = ?d"
      unfolding c' using b d by (rule dig3(3))
    also have "224 + ?a = ?s0"
      using C(2) by linarith
    also have "128 + ?b = ?s1"
      using s1_lo by linarith
    also have "128 + ?d = ?s2"
      using C(6) by linarith
    finally show ?thesis
      by (simp add: w C(1))
next
  fix c0 c1 c2 c3 u
  assume D: "s = c0 # c1 # c2 # c3 # u"
    "240 \<le> (of_char c0 :: nat)" "(of_char c0 :: nat) \<le> 244"
    "(if (of_char c0 :: nat) = 240 then 144 else 128) \<le> (of_char c1 :: nat)"
    "(of_char c1 :: nat) \<le> (if (of_char c0 :: nat) = 244 then 143 else 191)"
    "128 \<le> (of_char c2 :: nat)" "(of_char c2 :: nat) \<le> 191"
    "128 \<le> (of_char c3 :: nat)" "(of_char c3 :: nat) \<le> 191"
    "DecodeRuneInString s =
        ((of_char c0 mod 8) * 262144 + (of_char c1 mod 64) * 4096
         + (of_char c2 mod 64) * 64 + of_char c3 mod 64, 4)"
    let ?s0 = "of_char c0 :: nat" and ?s1 = "of_char c1 :: nat"
    let ?s2 = "of_char c2 :: nat" and ?s3 = "of_char c3 :: nat"
    let ?a = "?s0 - 240" and ?b = "?s1 - 128" and ?d = "?s2 - 128" and ?e = "?s3 - 128"
    from assms(2) D(10) have c: "c = (?s0 mod 8) * 262144 + (?s1 mod 64) * 4096
        + (?s2 mod 64) * 64 + ?s3 mod 64"
      and w: "w = 4"
      by simp_all
    from D(4) have s1_lo: "128 \<le> ?s1"
      by (simp split: if_splits)
    from D(5) have s1_hi: "?s1 \<le> 191"
      by (simp split: if_splits)
    have m0: "?s0 mod 8 = ?a"
      using mod_low [of 30 8 ?s0] D(2,3) by simp
    have m1: "?s1 mod 64 = ?b"
      using mod_low [of 2 64 ?s1] s1_lo s1_hi by simp
    have m2: "?s2 mod 64 = ?d"
      using mod_low [of 2 64 ?s2] D(6,7) by simp
    have m3: "?s3 mod 64 = ?e"
      using mod_low [of 2 64 ?s3] D(8,9) by simp
    have b: "?b < 64" and d: "?d < 64" and e: "?e < 64"
      using s1_hi D(7,9) by linarith+
    have c': "c = ?a * 262144 + ?b * 4096 + ?d * 64 + ?e"
      by (simp only: c m0 m1 m2 m3)
    have "ValidRune c"
      unfolding c using D(2,3,4,5) by (rule valid4)
    then have hi: "c \<le> 1114111"
      unfolding ValidRune_def MaxRune_def by linarith
    have lo: "65535 < c"
    proof (cases "?s0 = 240")
      case True
      with D(4) have "144 \<le> ?s1"
        by simp
      then show ?thesis
        unfolding c' by linarith
    next
      case False
      with D(2) have "1 \<le> ?a"
        by linarith
      then show ?thesis
        unfolding c' by linarith
    qed
    have "AppendRune c = [char_of (240 + c div 262144), char_of (128 + (c div 4096) mod 64),
        char_of (128 + (c div 64) mod 64), char_of (128 + c mod 64)]"
      using lo hi by (rule AppendRune_4)
    also have "c div 262144 = ?a"
      unfolding c' using b d e by (rule dig4(1))
    also have "(c div 4096) mod 64 = ?b"
      unfolding c' using b d e by (rule dig4(2))
    also have "(c div 64) mod 64 = ?d"
      unfolding c' using b d e by (rule dig4(3))
    also have "c mod 64 = ?e"
      unfolding c' using b d e by (rule dig4(4))
    also have "240 + ?a = ?s0"
      using D(2) by linarith
    also have "128 + ?b = ?s1"
      using s1_lo by linarith
    also have "128 + ?d = ?s2"
      using D(6) by linarith
    also have "128 + ?e = ?s3"
      using D(8) by linarith
    finally show ?thesis
      by (simp add: w D(1))
qed

text \<open>
  So where \<open>strings.Map\<close> copies the bytes of a code point that the mapping keeps,
  it puts what \<open>strings_Map\<close> writes for it.
\<close>

lemma strings_Map_copy:
  assumes "s \<noteq> []" and "DecodeRuneInString s = (c, w)" and "mapping c = c"
    and "\<not> (c = RuneError \<and> w = 1)"
  shows "strings_Map mapping s = take w s @ strings_Map mapping (drop w s)"
proof -
  have "AppendRune c = take w s"
    using assms(1,2,4) by (rule AppendRune_Decode)
  with assms(1,2,3) show ?thesis
    by (simp add: strings_Map_def decodeRunes.simps [of s])
qed

subsection \<open>Lower-casing, and the search\<close>

lemma decodeRunes_Cons:
  "decodeRunes (c # s) =
     fst (DecodeRuneInString (c # s)) # decodeRunes (drop (snd (DecodeRuneInString (c # s))) (c # s))"
  by (simp add: decodeRunes.simps [of "c # s"])

lemma decodeRunes_ascii:
  assumes "list_all (\<lambda>c. (of_char c :: nat) < 128) s"
  shows "decodeRunes s = map of_char s"
  using assms
proof (induction s)
  case Nil
  show ?case by simp
next
  case (Cons c s)
  then have "(of_char c :: nat) < 128"
    by simp
  then have "DecodeRuneInString (c # s) = (of_char c, 1)"
    by (rule Decode_1)
  with Cons show ?case
    by (simp add: decodeRunes_Cons)
qed

lemma AppendRune_lower_ascii:
  assumes "(of_char c :: nat) < 128"
  shows "AppendRune (unicode_ToLower caseTable (of_char c)) = [toLowerByte c]"
proof (cases "65 \<le> (of_char c :: nat) \<and> (of_char c :: nat) \<le> 90")
  case True
  then have "unicode_ToLower caseTable (of_char c) = of_char c + 32"
    by (simp add: unicode_ToLower_def)
  moreover from True have "(of_char c :: nat) + 32 \<le> 127"
    by linarith
  ultimately show ?thesis
    using True by (simp add: AppendRune_1 toLowerByte_def)
next
  case False
  with assms have "unicode_ToLower caseTable (of_char c) = of_char c"
    by (auto simp add: unicode_ToLower_def)
  moreover from assms have "(of_char c :: nat) \<le> 127"
    by linarith
  ultimately show ?thesis
    using False by (auto simp add: AppendRune_1 toLowerByte_def)
qed

lemma encodeRunes_lower_ascii:
  assumes "list_all (\<lambda>c. (of_char c :: nat) < 128) s"
  shows "encodeRunes (map (unicode_ToLower caseTable \<circ> of_char) s) = map toLowerByte s"
  using assms by (induction s) (simp_all add: AppendRune_lower_ascii)

lemma toLowerByte_no_upper:
  assumes "\<not> list_ex (\<lambda>c. 65 \<le> (of_char c :: nat) \<and> (of_char c :: nat) \<le> 90) s"
  shows "map toLowerByte s = s"
  using assms by (induction s) (auto simp add: toLowerByte_def)

text \<open>Both paths of \<open>ToLower\<close> write the lower-case mappings of the code points read.\<close>

lemma ToLower_runes:
  "ToLower caseTable s = encodeRunes (map (unicode_ToLower caseTable) (decodeRunes s))"
proof (cases "list_all (\<lambda>c. (of_char c :: nat) < 128) s")
  case True
  then have "encodeRunes (map (unicode_ToLower caseTable) (decodeRunes s)) = map toLowerByte s"
    by (simp add: decodeRunes_ascii encodeRunes_lower_ascii)
  moreover have "ToLower caseTable s = map toLowerByte s"
    using True by (auto simp add: ToLower_def Let_def toLowerByte_no_upper)
  ultimately show ?thesis
    by simp
next
  case False
  then show ?thesis
    by (simp add: ToLower_def Let_def strings_Map_def encodeRunes_def comp_def)
qed








subsection \<open>The examples\<close>


lemmas eval_runes =
  decodeRunes_Cons DecodeRuneInString_def AppendRune_def unicode_ToLower_def
  strings_Map_def ToLower_def toLowerByte_def latin1Table_def RuneError_def MaxRune_def
  Let_def char_of_def bit_0



lemma Items_broken_tasks: "Items broken_tasks = [NewItem 1 (''caf'' @ [CHR 0xFF])]"
  by (simp add: broken_tasks_def Add_def NewList_def NewItem_def)

lemma Items_accent_tasks: "Items accent_tasks = [NewItem 1 [CHR 0xC3, CHR 0xA9]]"
  by (simp add: accent_tasks_def Add_def NewList_def NewItem_def)

lemma HasPrefix_refl [simp]: "HasPrefix s s"
  by (induction s) simp_all

lemma Contains_refl [simp]: "Contains p p"
  by (cases p) simp_all

lemma Contains_suffix: "Contains (u @ p) p"
  by (induction u) simp_all

text \<open>
  Whatever the case table: the query of the one byte \<open>FE\<close> finds the text \<open>caf\<close>
  followed by the byte \<open>FF\<close>, since both bytes are read as U+FFFD.
\<close>

lemma Search_invalid_byte_any_table:
  "Search caseTable [CHR 0xFE] broken_tasks = (Items broken_tasks, broken_tasks)"
proof -
  have q: "ToLower caseTable [CHR 0xFE] = AppendRune (caseTable 65533)"
    by (simp add: ToLower_runes decodeRunes_Cons DecodeRuneInString_def Let_def RuneError_def
        unicode_ToLower_def)
  have t: "ToLower caseTable (''caf'' @ [CHR 0xFF]) = ''caf'' @ AppendRune (caseTable 65533)"
    by (simp add: ToLower_runes decodeRunes_Cons DecodeRuneInString_def Let_def RuneError_def
        unicode_ToLower_def AppendRune_1 char_of_def bit_0)
  have "Contains (ToLower caseTable (''caf'' @ [CHR 0xFF])) (ToLower caseTable [CHR 0xFE])"
    unfolding q t by (rule Contains_suffix)
  then show ?thesis
    by (simp add: Search_def Items_broken_tasks NewItem_def)
qed


text \<open>
  In the other direction, a byte is not found inside the encoding it is part of: the
  text of the two bytes \<open>C3 A9\<close> (the small e acute) contains the query of the one byte
  \<open>C3\<close> as a substring, and the search returns nothing. (The case table keeps the small
  e acute and U+FFFD as they are.)
\<close>

lemma Search_inside_encoding:
  "Items accent_tasks = [NewItem 1 [CHR 0xC3, CHR 0xA9]]
   \<and> Contains [CHR 0xC3, CHR 0xA9] [CHR 0xC3]
   \<and> fst (Search latin1Table [CHR 0xC3] accent_tasks) = []"
  by (simp add: Search_def Items_accent_tasks NewItem_def eval_runes)

subsection \<open>The search as a filter\<close>

lemma lower_eq_ascii:
  assumes "(of_char c :: nat) < 128" and "(of_char d :: nat) < 128"
  shows "lower_eq caseTable (of_char c) (of_char d) \<longleftrightarrow> eq_fold c d"
proof -
  let ?a = "of_char c :: nat" and ?b = "of_char d :: nat"
  let ?ua = "65 \<le> ?a \<and> ?a \<le> 90" and ?ub = "65 \<le> ?b \<and> ?b \<le> 90"
  have inj: "c = d \<longleftrightarrow> ?a = ?b"
    by simp
  have la: "unicode_ToLower caseTable ?a = (if ?ua then ?a + 32 else ?a)"
    using assms(1) by (simp add: unicode_ToLower_def)
  have lb: "unicode_ToLower caseTable ?b = (if ?ub then ?b + 32 else ?b)"
    using assms(2) by (simp add: unicode_ToLower_def)
  have "(if ?ua then ?a + 32 else ?a) = (if ?ub then ?b + 32 else ?b) \<longleftrightarrow>
      ?a = ?b \<or> (?ua \<and> ?b = ?a + 32) \<or> (?ub \<and> ?a = ?b + 32)"
  proof (cases ?ua)
    case ua: True
    show ?thesis
    proof (cases ?ub)
      case True
      with ua show ?thesis by auto
    next
      case False
      with ua show ?thesis by auto
    qed
  next
    case nua: False
    show ?thesis
    proof (cases ?ub)
      case True
      with nua show ?thesis by auto
    next
      case False
      with nua show ?thesis by auto
    qed
  qed
  then show ?thesis
    unfolding lower_eq_def eq_fold_def isUpper_def la lb inj .
qed

lemma ci_substring_ascii:
  assumes "list_all (\<lambda>c. (of_char c :: nat) < 128) q"
    and "list_all (\<lambda>c. (of_char c :: nat) < 128) s"
  shows "ci_substring caseTable q s \<longleftrightarrow> ci_substring_bytes q s"
proof -
  have "list_all2 (lower_eq caseTable)
      (take (length (map of_char q)) (drop i (map of_char s))) (map of_char q) \<longleftrightarrow>
      list_all2 eq_fold (take (length q) (drop i s)) q" for i
  proof -
    have "list_all2 (lower_eq caseTable)
        (take (length (map of_char q)) (drop i (map of_char s))) (map of_char q) \<longleftrightarrow>
        list_all2 (\<lambda>c d. lower_eq caseTable (of_char c) (of_char d))
          (take (length q) (drop i s)) q"
    proof -
      have e: "take (length (map of_char q)) (drop i (map of_char s)) =
          map of_char (take (length q) (drop i s))"
        by (simp add: take_map drop_map)
      show ?thesis
        unfolding e by (simp only: list_all2_map1 list_all2_map2)
    qed
    also have "\<dots> \<longleftrightarrow> list_all2 eq_fold (take (length q) (drop i s)) q"
    proof (rule list.rel_cong)
      fix c d
      assume "c \<in> set (take (length q) (drop i s))" and "d \<in> set q"
      then have "c \<in> set s" and "d \<in> set q"
        by (auto dest: in_set_takeD in_set_dropD)
      with assms have "(of_char c :: nat) < 128" and "(of_char d :: nat) < 128"
        by (simp_all add: list_all_iff)
      then show "lower_eq caseTable (of_char c) (of_char d) = eq_fold c d"
        by (rule lower_eq_ascii)
    qed simp_all
    finally show ?thesis .
  qed
  then show ?thesis
    by (simp add: ci_substring_def ci_substring_bytes_def decodeRunes_ascii [OF assms(1)]
        decodeRunes_ascii [OF assms(2)])
qed



text \<open>The scenario of the specification, on the untagged tasks.\<close>

lemma Search_scenario:
  "map Text (fst (Search latin1Table ''go'' search_tasks)) = [''Learn Go programming'']"
  by (simp add: Search_def search_tasks_def Add_def NewList_def NewItem_def eval_runes)

end
